theory Spec2Isabelle
  imports Main "HOL-Library.Multiset"
begin

section \<open>The quiz generator of app.py\<close>

text \<open>
  The development follows \<^verbatim>\<open>src/app.py\<close>: the generator
  \<^verbatim>\<open>generate_mcq_questions\<close> and the grading route \<^verbatim>\<open>submit\<close>.
  Python strings are \<open>string\<close> (character lists); integers are \<open>int\<close>. An exception
  raised by the code is a value \<open>Inl e\<close> of the result type.
\<close>

subsection \<open>Strings\<close>

datatype py_error = IndexError | ValueError

text \<open>\<^verbatim>\<open>str.lower\<close>, \<^verbatim>\<open>str.isalpha\<close> and \<^verbatim>\<open>str.startswith\<close>, on ASCII text.\<close>

definition lower_char :: "char \<Rightarrow> char" where
  "lower_char c =
     (let n = (of_char c :: nat) in if 65 \<le> n \<and> n \<le> 90 then char_of (n + 32) else c)"

definition py_lower :: "string \<Rightarrow> string" where
  "py_lower s = map lower_char s"

definition is_letter :: "char \<Rightarrow> bool" where
  "is_letter c =
     (let n = (of_char c :: nat) in (65 \<le> n \<and> n \<le> 90) \<or> (97 \<le> n \<and> n \<le> 122))"

definition py_isalpha :: "string \<Rightarrow> bool" where
  "py_isalpha s = (s \<noteq> [] \<and> list_all is_letter s)"

definition startswith :: "string \<Rightarrow> string \<Rightarrow> bool" where
  "startswith s p = (take (length p) s = p)"

text \<open>\<^verbatim>\<open>text.split()\<close>: the maximal runs of characters that are not whitespace.\<close>

definition is_space :: "char \<Rightarrow> bool" where
  "is_space c = (let n = (of_char c :: nat) in (9 \<le> n \<and> n \<le> 13) \<or> (28 \<le> n \<and> n \<le> 32))"

fun split_ws :: "string \<Rightarrow> string \<Rightarrow> string list" where
  "split_ws cur [] = (if cur = [] then [] else [cur])"
| "split_ws cur (c # cs) =
     (if is_space c then (if cur = [] then split_ws [] cs else cur # split_ws [] cs)
      else split_ws (cur @ [c]) cs)"

definition py_split :: "string \<Rightarrow> string list" where
  "py_split s = split_ws [] s"

fun py_join :: "string \<Rightarrow> string list \<Rightarrow> string" where
  "py_join sep [] = []"
| "py_join sep [x] = x"
| "py_join sep (x # y # zs) = x @ sep @ py_join sep (y # zs)"

text \<open>
  \<^verbatim>\<open>s.split(sep, 1)\<close>: the text before and after the first occurrence of \<open>sep\<close>, or
  the whole string alone when \<open>sep\<close> does not occur. An empty separator raises.
\<close>

fun find_first :: "string \<Rightarrow> string \<Rightarrow> (string \<times> string) option" where
  "find_first sep [] = (if sep = [] then Some ([], []) else None)"
| "find_first sep (c # cs) =
     (if startswith (c # cs) sep then Some ([], drop (length sep) (c # cs))
      else map_option (\<lambda>(p, q). (c # p, q)) (find_first sep cs))"

definition py_split1 :: "string \<Rightarrow> string \<Rightarrow> py_error + string list" where
  "py_split1 s sep =
     (if sep = [] then Inl ValueError
      else case find_first sep s of None \<Rightarrow> Inr [s] | Some (p, q) \<Rightarrow> Inr [p, q])"

text \<open>\<^verbatim>\<open>xs[i]\<close> for an index that is not negative.\<close>

definition py_index :: "'a list \<Rightarrow> nat \<Rightarrow> py_error + 'a" where
  "py_index xs i = (if i < length xs then Inr (xs ! i) else Inl IndexError)"

subsection \<open>The random source\<close>

text \<open>
  The module \<^verbatim>\<open>random\<close> is global state. Its state is the list of the numbers it will
  draw; \<open>draw n\<close> consumes one and gives an index below \<open>n\<close>. Every outcome of
  \<^verbatim>\<open>random.sample\<close> and \<^verbatim>\<open>random.shuffle\<close> is the result for some such state.
\<close>

type_synonym rng = "nat list"

fun draw :: "nat \<Rightarrow> rng \<Rightarrow> nat \<times> rng" where
  "draw n [] = (0, [])"
| "draw n (r # rs) = (r mod n, rs)"

text \<open>Picks \<open>k\<close> elements at positions that differ, in the order drawn.\<close>

fun pick :: "nat \<Rightarrow> 'a list \<Rightarrow> rng \<Rightarrow> 'a list \<times> rng" where
  "pick 0 pool g = ([], g)"
| "pick (Suc k) pool g =
     (if pool = [] then ([], g)
      else let (i, g1) = draw (length pool) g;
               (ys, g2) = pick k (take i pool @ drop (Suc i) pool) g1
           in (pool ! i # ys, g2))"

text \<open>\<^verbatim>\<open>random.sample(population, k)\<close> raises ValueError when \<open>k\<close> exceeds the population.\<close>

definition random_sample :: "'a list \<Rightarrow> nat \<Rightarrow> rng \<Rightarrow> py_error + ('a list \<times> rng)" where
  "random_sample population k g =
     (if length population < k then Inl ValueError else Inr (pick k population g))"

text \<open>\<^verbatim>\<open>random.shuffle(x)\<close>: the list in a drawn order.\<close>

definition random_shuffle :: "'a list \<Rightarrow> rng \<Rightarrow> 'a list \<times> rng" where
  "random_shuffle x g = pick (length x) x g"

subsection \<open>The language toolkit\<close>

text \<open>
  The sentence splitter, the word tokeniser, the part-of-speech tagger and the stopword
  list belong to NLTK. The generator takes them as a parameter.
\<close>

record nlp =
  sent_tokenize :: "string \<Rightarrow> string list"
  word_tokenize :: "string \<Rightarrow> string list"
  pos_tag :: "string list \<Rightarrow> (string \<times> string) list"
  stop_words :: "string set"

subsection \<open>generate\_mcq\_questions\<close>

record MCQ =
  mcq_id :: int
  question :: string
  options :: "string list"
  answer :: string

text \<open>Lines 148 to 154: the lowercase forms, each kept at its first occurrence.\<close>

fun dedupe :: "string list \<Rightarrow> string set \<Rightarrow> string list \<Rightarrow> string list" where
  "dedupe [] seen unique_nouns = unique_nouns"
| "dedupe (noun # rest) seen unique_nouns =
     (let lower_n = py_lower noun
      in if lower_n \<notin> seen then dedupe rest (insert lower_n seen) (unique_nouns @ [lower_n])
         else dedupe rest seen unique_nouns)"

text \<open>Lines 136 to 154: the noun pool of the whole text.\<close>

definition noun_vocabulary :: "nlp \<Rightarrow> string \<Rightarrow> string list" where
  "noun_vocabulary nlp cleaned_text =
     (let tokens = word_tokenize nlp cleaned_text;
          pos_tags = pos_tag nlp tokens;
          noun_pool = map fst (filter (\<lambda>(word, tag).
             startswith tag ''NN'' \<and> py_lower word \<notin> stop_words nlp \<and> py_isalpha word) pos_tags)
      in dedupe noun_pool {} [])"

text \<open>Lines 167 to 174: the first eligible noun of a sentence.\<close>

definition select_answer :: "nlp \<Rightarrow> string list \<Rightarrow> string \<Rightarrow> string option" where
  "select_answer nlp unique_nouns sentence =
     (let words = word_tokenize nlp sentence;
          tags = pos_tag nlp words
      in map_option fst
           (find (\<lambda>(word, tag). startswith tag ''NN'' \<and> py_lower word \<in> set unique_nouns) tags))"

text \<open>Lines 180 to 183: the sentence with the first occurrence of the answer blanked.\<close>

definition blank :: string where
  "blank = ''_____''"

definition blank_question :: "string \<Rightarrow> string \<Rightarrow> py_error + string" where
  "blank_question sentence answer_word =
     (case py_split1 sentence answer_word of
        Inl e \<Rightarrow> Inl e
      | Inr parts \<Rightarrow>
          (case py_index parts 0 of
             Inl e \<Rightarrow> Inl e
           | Inr p0 \<Rightarrow>
               (case py_index parts 1 of
                  Inl e \<Rightarrow> Inl e
                | Inr p1 \<Rightarrow> Inr (p0 @ blank @ p1))))"

text \<open>Lines 186 to 192: the distractors and the answer, shuffled.\<close>

definition make_options ::
  "string list \<Rightarrow> string \<Rightarrow> rng \<Rightarrow> py_error + (string list \<times> rng)" where
  "make_options unique_nouns answer_word g =
     (let distractor_pool = filter (\<lambda>n. n \<noteq> py_lower answer_word) unique_nouns;
          num_distractors = min 3 (length distractor_pool)
      in case (if distractor_pool \<noteq> [] then random_sample distractor_pool num_distractors g
               else Inr ([], g)) of
           Inl e \<Rightarrow> Inl e
         | Inr (distractors, g1) \<Rightarrow> Inr (random_shuffle (distractors @ [answer_word]) g1))"

text \<open>
  Lines 163 to 196: the loop over the sentences. It carries \<open>mcq_list\<close>, \<open>question_id\<close>
  and the random state; \<^verbatim>\<open>break\<close> returns, \<^verbatim>\<open>continue\<close> goes to the next sentence.
\<close>

fun gen_loop ::
  "nlp \<Rightarrow> string list \<Rightarrow> int \<Rightarrow> string list \<Rightarrow> MCQ list \<Rightarrow> int \<Rightarrow> rng
     \<Rightarrow> py_error + (MCQ list \<times> rng)" where
  "gen_loop nlp unique_nouns num_questions [] mcq_list question_id g = Inr (mcq_list, g)"
| "gen_loop nlp unique_nouns num_questions (sentence # rest) mcq_list question_id g =
     (if num_questions \<le> int (length mcq_list) then Inr (mcq_list, g)
      else case select_answer nlp unique_nouns sentence of
        None \<Rightarrow> gen_loop nlp unique_nouns num_questions rest mcq_list question_id g
      | Some answer_word \<Rightarrow>
          if answer_word = []
          then gen_loop nlp unique_nouns num_questions rest mcq_list question_id g
          else (case blank_question sentence answer_word of
             Inl e \<Rightarrow> Inl e
           | Inr question_text \<Rightarrow>
               (case make_options unique_nouns answer_word g of
                  Inl e \<Rightarrow> Inl e
                | Inr (opts, g1) \<Rightarrow>
                    gen_loop nlp unique_nouns num_questions rest
                      (mcq_list @ [\<lparr>mcq_id = question_id, question = question_text,
                                    options = opts, answer = answer_word\<rparr>])
                      (question_id + 1) g1)))"

definition generate_mcq_questions ::
  "nlp \<Rightarrow> string \<Rightarrow> int \<Rightarrow> rng \<Rightarrow> py_error + (MCQ list \<times> rng)" where
  "generate_mcq_questions nlp text num_questions g =
     (let cleaned_text = py_join '' '' (py_split text);
          sentences = sent_tokenize nlp cleaned_text;
          unique_nouns = noun_vocabulary nlp cleaned_text
      in if unique_nouns = [] then Inr ([], g)
         else gen_loop nlp unique_nouns num_questions sentences [] 0 g)"

subsection \<open>submit\<close>

text \<open>
  The posted form is the list of its fields in the order posted. Iterating the form
  gives each key once, at its first position; \<^verbatim>\<open>form.get\<close> gives the first value of
  a key, or None.
\<close>

type_synonym form = "(string \<times> string) list"

fun form_keys :: "form \<Rightarrow> string list" where
  "form_keys [] = []"
| "form_keys ((k, v) # rest) = k # filter (\<lambda>k'. k' \<noteq> k) (form_keys rest)"

definition form_get :: "form \<Rightarrow> string \<Rightarrow> string option" where
  "form_get f k = map_of f k"

record graded =
  g_question :: string
  user_answer :: "string option"
  correct :: "string option"
  is_correct :: bool

definition is_answer_key :: "string \<Rightarrow> bool" where
  "is_answer_key key = (startswith key ''q'' \<and> \<not> startswith key ''answer'')"

text \<open>Lines 241 to 255: the record of one key, with \<^verbatim>\<open>question_text or ""\<close>.\<close>

definition grade_key :: "form \<Rightarrow> string \<Rightarrow> graded" where
  "grade_key f key =
     (let qid = drop 1 key;
          user_answer = form_get f key;
          correct_answer = form_get f (''answer'' @ qid);
          question_text = form_get f (''question'' @ qid)
      in \<lparr>g_question = (case question_text of None \<Rightarrow> [] | Some t \<Rightarrow> t),
          user_answer = user_answer,
          correct = correct_answer,
          is_correct = (user_answer = correct_answer)\<rparr>)"

fun submit_loop :: "form \<Rightarrow> string list \<Rightarrow> graded list \<Rightarrow> int \<Rightarrow> graded list \<times> int" where
  "submit_loop f [] results score = (results, score)"
| "submit_loop f (key # keys) results score =
     (if is_answer_key key
      then let r = grade_key f key
           in submit_loop f keys (results @ [r]) (if is_correct r then score + 1 else score)
      else submit_loop f keys results score)"

definition submit :: "form \<Rightarrow> graded list \<times> int" where
  "submit f = submit_loop f (form_keys f) [] 0"

subsection \<open>A small toolkit for running the model\<close>

text \<open>
  A stand-in for NLTK on which the model runs: sentences end at a full stop, words are
  runs of letters and every other visible character is a token of its own, and a word is
  tagged a noun when a four-word lexicon holds its lowercase form.
\<close>

fun toy_sents :: "string \<Rightarrow> string \<Rightarrow> string list" where
  "toy_sents cur [] = (if cur = [] then [] else [cur])"
| "toy_sents cur (c # cs) =
     (if c = CHR ''.'' then (cur @ [c]) # toy_sents [] cs
      else if is_space c \<and> cur = [] then toy_sents [] cs
      else toy_sents (cur @ [c]) cs)"

fun toy_words :: "string \<Rightarrow> string \<Rightarrow> string list" where
  "toy_words cur [] = (if cur = [] then [] else [cur])"
| "toy_words cur (c # cs) =
     (if is_letter c then toy_words (cur @ [c]) cs
      else (if cur = [] then [] else [cur]) @ (if is_space c then [] else [[c]])
           @ toy_words [] cs)"

definition toy_tag :: "string list \<Rightarrow> (string \<times> string) list" where
  "toy_tag ws =
     map (\<lambda>w. (w, if py_lower w \<in> {''cat'', ''mat'', ''dog'', ''park''} then ''NN''
                   else ''XX'')) ws"

definition toy_nlp :: nlp where
  "toy_nlp = \<lparr>sent_tokenize = toy_sents [], word_tokenize = toy_words [],
              pos_tag = toy_tag, stop_words = {''the'', ''is'', ''of'', ''on'', ''in''}\<rparr>"



section \<open>Properties\<close>

subsection \<open>The random source picks without repetition\<close>

lemma draw_less: "0 < n \<Longrightarrow> fst (draw n g) < n"
  by (cases g) simp_all

lemma mset_remove_nth:
  "i < length pool \<Longrightarrow> add_mset (pool ! i) (mset (take i pool) + mset (drop (Suc i) pool)) = mset pool"
proof -
  assume "i < length pool"
  then have "pool = take i pool @ pool ! i # drop (Suc i) pool"
    by (rule id_take_nth_drop)
  then have "mset pool = mset (take i pool @ pool ! i # drop (Suc i) pool)"
    by simp
  then show ?thesis by simp
qed

lemma pick_subset: "mset (fst (pick k pool g)) \<subseteq># mset pool"
proof (induction k arbitrary: pool g)
  case 0
  show ?case by simp
next
  case (Suc k)
  show ?case
  proof (cases "pool = []")
    case True
    then show ?thesis by simp
  next
    case False
    obtain i g1 where d: "draw (length pool) g = (i, g1)" by (cases "draw (length pool) g")
    obtain ys g2 where p: "pick k (take i pool @ drop (Suc i) pool) g1 = (ys, g2)"
      by (cases "pick k (take i pool @ drop (Suc i) pool) g1")
    from False d have i: "i < length pool" using draw_less [of "length pool" g] by simp
    from Suc.IH [of "take i pool @ drop (Suc i) pool" g1] p
    have "mset ys \<subseteq># mset (take i pool) + mset (drop (Suc i) pool)" by simp
    then have "add_mset (pool ! i) (mset ys) \<subseteq># mset pool"
      using mset_remove_nth [OF i] by (metis mset_subset_eq_add_mset_cancel)
    with False d p show ?thesis by simp
  qed
qed

lemma pick_length: "length (fst (pick k pool g)) = min k (length pool)"
proof (induction k arbitrary: pool g)
  case 0
  show ?case by simp
next
  case (Suc k)
  show ?case
  proof (cases "pool = []")
    case True
    then show ?thesis by simp
  next
    case False
    obtain i g1 where d: "draw (length pool) g = (i, g1)" by (cases "draw (length pool) g")
    obtain ys g2 where p: "pick k (take i pool @ drop (Suc i) pool) g1 = (ys, g2)"
      by (cases "pick k (take i pool @ drop (Suc i) pool) g1")
    from False d have i: "i < length pool" using draw_less [of "length pool" g] by simp
    from Suc.IH [of "take i pool @ drop (Suc i) pool" g1] p
    have "length ys = min k (length (take i pool @ drop (Suc i) pool))" by simp
    with i have "length ys = min k (length pool - 1)" by (simp add: min_def)
    with i have "Suc (length ys) = min (Suc k) (length pool)" by (simp add: min_def) arith
    with False d p show ?thesis by simp
  qed
qed

lemma pick_all: "length pool \<le> k \<Longrightarrow> mset (fst (pick k pool g)) = mset pool"
proof -
  assume "length pool \<le> k"
  then have "size (mset (fst (pick k pool g))) = size (mset pool)"
    using pick_length [of k pool g] by simp
  with pick_subset [of k pool g] show ?thesis
    by (metis mset_subset_size subset_mset.le_neq_trans less_irrefl)
qed

lemma distinct_submset: "mset xs \<subseteq># mset ys \<Longrightarrow> distinct ys \<Longrightarrow> distinct xs"
proof -
  assume sub: "mset xs \<subseteq># mset ys" and d: "distinct ys"
  have "count (mset xs) a \<le> 1" for a
  proof -
    have "count (mset xs) a \<le> count (mset ys) a"
      using sub by (rule mset_subset_eq_count)
    also have "\<dots> \<le> 1"
      using d by (simp add: distinct_count_atmost_1)
    finally show ?thesis .
  qed
  then show ?thesis
    unfolding distinct_count_atmost_1 by (metis count_mset_0_iff le_antisym le_zero_eq not_less_eq_eq One_nat_def nat_le_linear)
qed

lemma pick_distinct: "distinct pool \<Longrightarrow> distinct (fst (pick k pool g))"
  using pick_subset [of k pool g] by (rule distinct_submset)

lemma pick_set: "set (fst (pick k pool g)) \<subseteq> set pool"
  using pick_subset [of k pool g] by (metis set_mset_mono set_mset_mset)

subsection \<open>Lowercase forms and the first occurrence\<close>

lemma lower_char_idem: "lower_char (lower_char c) = lower_char c"
proof (cases "65 \<le> (of_char c :: nat) \<and> (of_char c :: nat) \<le> 90")
  case True
  then have "(of_char (char_of (of_char c + 32 :: nat)) :: nat) = of_char c + 32"
    by simp
  with True show ?thesis by (simp add: lower_char_def Let_def)
next
  case False
  then show ?thesis by (auto simp add: lower_char_def Let_def)
qed

lemma py_lower_idem: "py_lower (py_lower s) = py_lower s"
  by (simp add: py_lower_def lower_char_idem)

lemma find_first_split: "find_first sep s = Some (p, q) \<Longrightarrow> s = p @ sep @ q"
proof (induction s arbitrary: p)
  case Nil
  then show ?case by (simp split: if_splits)
next
  case (Cons c cs)
  show ?case
  proof (cases "startswith (c # cs) sep")
    case True
    with Cons.prems have "p = []" and "q = drop (length sep) (c # cs)" by simp_all
    moreover from True have "take (length sep) (c # cs) = sep" by (simp add: startswith_def)
    ultimately show ?thesis by (metis append_Nil append_take_drop_id)
  next
    case False
    with Cons.prems obtain p' where "find_first sep cs = Some (p', q)" and "p = c # p'"
      by auto
    with Cons.IH show ?thesis by simp
  qed
qed

lemma find_first_least:
  "find_first sep s = Some (p, q) \<Longrightarrow> s = q0 @ sep @ q1 \<Longrightarrow> length p \<le> length q0"
proof (induction s arbitrary: p q0)
  case Nil
  then show ?case by (simp split: if_splits)
next
  case (Cons c cs)
  show ?case
  proof (cases "startswith (c # cs) sep")
    case True
    with Cons.prems(1) have "p = []" by simp
    then show ?thesis by simp
  next
    case False
    with Cons.prems(1) obtain p' where p': "find_first sep cs = Some (p', q)" and p: "p = c # p'"
      by auto
    have "q0 \<noteq> []"
    proof
      assume "q0 = []"
      with Cons.prems(2) have "c # cs = sep @ q1" by simp
      then have "startswith (c # cs) sep" by (simp add: startswith_def)
      with False show False by simp
    qed
    then obtain q0' where q0: "q0 = c # q0'" and cs: "cs = q0' @ sep @ q1"
      using Cons.prems(2) by (cases q0) auto
    from Cons.IH [OF p' cs] have "length p' \<le> length q0'" .
    with p q0 show ?thesis by simp
  qed
qed

lemma blank_question_Inr:
  assumes "blank_question s w = Inr q"
  shows "\<exists>p0 p1. s = p0 @ w @ p1 \<and> q = p0 @ blank @ p1 \<and>
           (\<forall>q0 q1. s = q0 @ w @ q1 \<longrightarrow> length p0 \<le> length q0)"
proof (cases "find_first w s")
  case None
  with assms show ?thesis
    by (simp add: blank_question_def py_split1_def py_index_def split: if_splits)
next
  case (Some pq)
  obtain p0 p1 where pq: "pq = (p0, p1)" by (cases pq)
  with Some assms have q: "q = p0 @ blank @ p1"
    by (simp add: blank_question_def py_split1_def py_index_def split: if_splits)
  from Some pq have s: "s = p0 @ w @ p1" by (simp add: find_first_split)
  have "length p0 \<le> length q0" if "s = q0 @ w @ q1" for q0 q1
    using Some pq that by (simp add: find_first_least)
  with s q show ?thesis by blast
qed

subsection \<open>The noun pool\<close>

lemma dedupe_distinct: "distinct u \<Longrightarrow> distinct (dedupe ns (set u) u)"
proof (induction ns arbitrary: u)
  case Nil
  then show ?case by simp
next
  case (Cons n ns)
  show ?case
  proof (cases "py_lower n \<in> set u")
    case True
    with Cons.IH [OF Cons.prems] show ?thesis by simp
  next
    case False
    with Cons.prems have "distinct (u @ [py_lower n])" by simp
    then have "distinct (dedupe ns (set (u @ [py_lower n])) (u @ [py_lower n]))"
      by (rule Cons.IH)
    moreover have "set (u @ [py_lower n]) = insert (py_lower n) (set u)" by simp
    ultimately have "distinct (dedupe ns (insert (py_lower n) (set u)) (u @ [py_lower n]))"
      by (simp only:)
    with False show ?thesis by (simp only: dedupe.simps Let_def if_True not_False_eq_True)
  qed
qed

lemma dedupe_subset: "set (dedupe ns seen u) \<subseteq> set u \<union> py_lower ` set ns"
proof (induction ns arbitrary: u seen)
  case Nil
  show ?case by simp
next
  case (Cons n ns)
  show ?case
  proof (cases "py_lower n \<in> seen")
    case True
    then have "dedupe (n # ns) seen u = dedupe ns seen u" by simp
    moreover have "set (dedupe ns seen u) \<subseteq> set u \<union> py_lower ` set ns" by (rule Cons.IH)
    ultimately show ?thesis by auto
  next
    case False
    then have "dedupe (n # ns) seen u = dedupe ns (insert (py_lower n) seen) (u @ [py_lower n])"
      by (simp add: Let_def)
    moreover have "set (dedupe ns (insert (py_lower n) seen) (u @ [py_lower n]))
        \<subseteq> set (u @ [py_lower n]) \<union> py_lower ` set ns" by (rule Cons.IH)
    ultimately show ?thesis by auto
  qed
qed

lemma noun_vocabulary_distinct: "distinct (noun_vocabulary nlp t)"
proof -
  have "distinct (dedupe ns (set []) [])" for ns
    by (rule dedupe_distinct) simp
  then show ?thesis by (simp add: noun_vocabulary_def Let_def)
qed

lemma noun_vocabulary_lower:
  assumes "x \<in> set (noun_vocabulary nlp t)"
  shows "py_lower x = x"
proof -
  from assms obtain ns where "x \<in> set (dedupe ns {} [])"
    by (auto simp add: noun_vocabulary_def Let_def)
  with dedupe_subset [of ns "{}" "[]"] obtain n where "x = py_lower n" by auto
  then show ?thesis by (simp add: py_lower_idem)
qed

subsection \<open>The options of a question\<close>

lemma random_shuffle_mset: "mset (fst (random_shuffle x g)) = mset x"
  by (simp add: random_shuffle_def pick_all)

lemma make_options_Inr:
  "\<exists>opts g1. make_options un w g = Inr (opts, g1)"
  by (simp add: make_options_def Let_def random_sample_def split: sum.splits prod.splits)

lemma make_options_shape:
  assumes "make_options un w g = Inr (opts, g1)"
  shows "\<exists>ds. mset opts = mset (ds @ [w]) \<and> length ds \<le> 3 \<and>
           mset ds \<subseteq># mset (filter (\<lambda>n. n \<noteq> py_lower w) un)"
proof (cases "filter (\<lambda>n. n \<noteq> py_lower w) un = []")
  case True
  with assms have "opts = fst (random_shuffle ([] @ [w]) g)"
    by (simp add: make_options_def Let_def)
  then have "mset opts = mset ([] @ [w])" by (simp only: random_shuffle_mset)
  then show ?thesis by (intro exI [of _ "[]"]) simp
next
  case False
  define pool where "pool = filter (\<lambda>n. n \<noteq> py_lower w) un"
  define ds where "ds = fst (pick (min 3 (length pool)) pool g)"
  define g0 where "g0 = snd (pick (min 3 (length pool)) pool g)"
  from False assms have "opts = fst (random_shuffle (ds @ [w]) g0)"
    by (simp add: make_options_def Let_def random_sample_def pool_def ds_def g0_def
        split: prod.splits)
  then have "mset opts = mset (ds @ [w])" by (simp only: random_shuffle_mset)
  moreover have "length ds \<le> 3" by (simp add: ds_def pick_length)
  moreover have "mset ds \<subseteq># mset pool" unfolding ds_def by (rule pick_subset)
  ultimately show ?thesis unfolding pool_def by blast
qed

subsection \<open>The loop over the sentences\<close>

text \<open>
  Whatever holds of the records the loop starts with, and of every record its body
  builds, holds of every record it returns.
\<close>

lemma gen_loop_all:
  assumes "gen_loop nlp un n ss acc qid g = Inr (ms, g')"
    and "\<forall>m\<in>set acc. P m"
    and "\<And>s w q opts g0 g1 i. s \<in> set ss \<Longrightarrow> select_answer nlp un s = Some w \<Longrightarrow>
           w \<noteq> [] \<Longrightarrow> blank_question s w = Inr q \<Longrightarrow>
           make_options un w g0 = Inr (opts, g1) \<Longrightarrow>
           P \<lparr>mcq_id = i, question = q, options = opts, answer = w\<rparr>"
  shows "\<forall>m\<in>set ms. P m"
  using assms
proof (induction ss arbitrary: acc qid g)
  case Nil
  then show ?case by simp
next
  case (Cons s ss)
  have step: "P \<lparr>mcq_id = i, question = q, options = opts, answer = w\<rparr>"
    if "s' \<in> set ss" "select_answer nlp un s' = Some w" "w \<noteq> []"
      "blank_question s' w = Inr q" "make_options un w g0 = Inr (opts, g1)"
    for s' w q opts g0 g1 i
  proof -
    from that(1) have "s' \<in> set (s # ss)" by simp
    then show ?thesis using that(2-5) by (rule Cons.prems(3))
  qed
  show ?case
  proof (cases "n \<le> int (length acc)")
    case True
    with Cons.prems(1,2) show ?thesis by simp
  next
    case stop: False
    show ?thesis
    proof (cases "select_answer nlp un s")
      case None
      with stop Cons.prems(1) have "gen_loop nlp un n ss acc qid g = Inr (ms, g')" by simp
      from Cons.IH [OF this Cons.prems(2) step] show ?thesis by simp
    next
      case (Some w)
      show ?thesis
      proof (cases "w = []")
        case True
        with stop Some Cons.prems(1) have "gen_loop nlp un n ss acc qid g = Inr (ms, g')"
          by simp
        from Cons.IH [OF this Cons.prems(2) step] show ?thesis by simp
      next
        case False
        from stop Some False Cons.prems(1) obtain q where q: "blank_question s w = Inr q"
          by (cases "blank_question s w") simp_all
        from stop Some False q Cons.prems(1) obtain opts g1
          where o: "make_options un w g = Inr (opts, g1)"
          by (cases "make_options un w g") auto
        let ?m = "\<lparr>mcq_id = qid, question = q, options = opts, answer = w\<rparr>"
        from stop Some False q o Cons.prems(1)
        have run: "gen_loop nlp un n ss (acc @ [?m]) (qid + 1) g1 = Inr (ms, g')" by simp
        have "s \<in> set (s # ss)" by simp
        then have "P ?m" using Some False q o by (rule Cons.prems(3))
        with Cons.prems(2) have "\<forall>m\<in>set (acc @ [?m]). P m" by simp
        from Cons.IH [OF run this step] show ?thesis by simp
      qed
    qed
  qed
qed

lemma generate_all:
  assumes "generate_mcq_questions nlp text n g = Inr (ms, g')"
    and "\<And>s w q opts g0 g1 i.
           s \<in> set (sent_tokenize nlp (py_join '' '' (py_split text))) \<Longrightarrow>
           select_answer nlp (noun_vocabulary nlp (py_join '' '' (py_split text))) s = Some w \<Longrightarrow>
           w \<noteq> [] \<Longrightarrow> blank_question s w = Inr q \<Longrightarrow>
           make_options (noun_vocabulary nlp (py_join '' '' (py_split text))) w g0 = Inr (opts, g1) \<Longrightarrow>
           P \<lparr>mcq_id = i, question = q, options = opts, answer = w\<rparr>"
  shows "\<forall>m\<in>set ms. P m"
proof (cases "noun_vocabulary nlp (py_join '' '' (py_split text)) = []")
  case True
  with assms(1) show ?thesis by (simp add: generate_mcq_questions_def Let_def)
next
  case False
  with assms(1) have "gen_loop nlp (noun_vocabulary nlp (py_join '' '' (py_split text))) n
      (sent_tokenize nlp (py_join '' '' (py_split text))) [] 0 g = Inr (ms, g')"
    by (simp add: generate_mcq_questions_def Let_def)
  then show ?thesis
    by (rule gen_loop_all) (simp, rule assms(2))
qed

subsection \<open>Runs of the model\<close>

lemma toy_run_two:
  "generate_mcq_questions toy_nlp ''The cat sat on the mat.  The dog ran in the park.'' 2
     [1, 0, 2, 3, 1] =
   Inr ([\<lparr>mcq_id = 0, question = ''The _____ sat on the mat.'',
           options = [''cat'', ''mat'', ''dog'', ''park''], answer = ''cat''\<rparr>,
         \<lparr>mcq_id = 1, question = ''The _____ ran in the park.'',
           options = [''cat'', ''mat'', ''park'', ''dog''], answer = ''dog''\<rparr>], [])"
  by code_simp

subsection \<open>The turns of the loop\<close>

text \<open>One turn of the loop: it breaks, skips the sentence, raises, or appends a record.\<close>

lemma gen_loop_Cons:
  "(n \<le> int (length acc) \<and> gen_loop nlp un n (s # ss) acc qid g = Inr (acc, g)) \<or>
   (\<not> n \<le> int (length acc) \<and>
      gen_loop nlp un n (s # ss) acc qid g = gen_loop nlp un n ss acc qid g) \<or>
   (\<not> n \<le> int (length acc) \<and> (\<exists>e. gen_loop nlp un n (s # ss) acc qid g = Inl e)) \<or>
   (\<not> n \<le> int (length acc) \<and> (\<exists>w q opts g1.
      gen_loop nlp un n (s # ss) acc qid g =
        gen_loop nlp un n ss
          (acc @ [\<lparr>mcq_id = qid, question = q, options = opts, answer = w\<rparr>]) (qid + 1) g1))"
  by (simp split: option.splits sum.splits prod.splits) blast

lemma gen_loop_inv:
  assumes "gen_loop nlp un n ss acc qid g = Inr (ms, g')"
    and "I acc qid"
    and "\<And>acc qid m. I acc qid \<Longrightarrow> \<not> n \<le> int (length acc) \<Longrightarrow> mcq_id m = qid \<Longrightarrow>
           I (acc @ [m]) (qid + 1)"
  shows "\<exists>qid'. I ms qid'"
  using assms(1,2)
proof (induction ss arbitrary: acc qid g)
  case Nil
  then show ?case by auto
next
  case (Cons s ss)
  consider
    (stop) "n \<le> int (length acc)" "gen_loop nlp un n (s # ss) acc qid g = Inr (acc, g)"
  | (skip) "gen_loop nlp un n (s # ss) acc qid g = gen_loop nlp un n ss acc qid g"
  | (raise) e where "gen_loop nlp un n (s # ss) acc qid g = Inl e"
  | (append) w q opts g1 where "\<not> n \<le> int (length acc)"
      "gen_loop nlp un n (s # ss) acc qid g =
        gen_loop nlp un n ss
          (acc @ [\<lparr>mcq_id = qid, question = q, options = opts, answer = w\<rparr>]) (qid + 1) g1"
    using gen_loop_Cons [of n acc nlp un s ss qid g] by blast
  then show ?case
  proof cases
    case stop
    with Cons.prems show ?thesis by auto
  next
    case skip
    with Cons.prems(1) have "gen_loop nlp un n ss acc qid g = Inr (ms, g')" by simp
    then show ?thesis using Cons.prems(2) by (rule Cons.IH)
  next
    case raise
    with Cons.prems(1) show ?thesis by simp
  next
    case append
    let ?m = "\<lparr>mcq_id = qid, question = q, options = opts, answer = w\<rparr>"
    from append(2) Cons.prems(1)
    have run: "gen_loop nlp un n ss (acc @ [?m]) (qid + 1) g1 = Inr (ms, g')" by simp
    have "I (acc @ [?m]) (qid + 1)"
      using Cons.prems(2) append(1) by (rule assms(3)) simp
    with run show ?thesis by (rule Cons.IH)
  qed
qed

lemma gen_loop_stop:
  "n \<le> int (length acc) \<Longrightarrow> gen_loop nlp un n ss acc qid g = Inr (acc, g)"
  by (cases ss) simp_all

lemma toy_run_negative:
  "generate_mcq_questions toy_nlp ''The cat sat.'' (- 1) [4] = Inr ([], [4])"
  by code_simp

text \<open>Once the count is reached, sentences that follow are never looked at.\<close>

lemma gen_loop_append_stop:
  "gen_loop nlp un n ss acc qid g = Inr (ms, g') \<Longrightarrow> n \<le> int (length ms) \<Longrightarrow>
   gen_loop nlp un n (ss @ ss') acc qid g = Inr (ms, g')"
proof (induction ss arbitrary: acc qid g)
  case Nil
  then show ?case by (simp add: gen_loop_stop)
next
  case (Cons s ss)
  show ?case
  proof (cases "n \<le> int (length acc)")
    case True
    with Cons.prems(1) show ?thesis by simp
  next
    case stop: False
    show ?thesis
    proof (cases "select_answer nlp un s")
      case None
      with stop Cons.prems(1) have "gen_loop nlp un n ss acc qid g = Inr (ms, g')" by simp
      then have "gen_loop nlp un n (ss @ ss') acc qid g = Inr (ms, g')"
        using Cons.prems(2) by (rule Cons.IH)
      with stop None show ?thesis by simp
    next
      case (Some w)
      show ?thesis
      proof (cases "w = []")
        case True
        with stop Some Cons.prems(1) have "gen_loop nlp un n ss acc qid g = Inr (ms, g')"
          by simp
        then have "gen_loop nlp un n (ss @ ss') acc qid g = Inr (ms, g')"
          using Cons.prems(2) by (rule Cons.IH)
        with stop Some True show ?thesis by simp
      next
        case False
        from stop Some False Cons.prems(1) obtain q where q: "blank_question s w = Inr q"
          by (cases "blank_question s w") simp_all
        from stop Some False q Cons.prems(1) obtain opts g1
          where o: "make_options un w g = Inr (opts, g1)"
          by (cases "make_options un w g") auto
        let ?m = "\<lparr>mcq_id = qid, question = q, options = opts, answer = w\<rparr>"
        from stop Some False q o Cons.prems(1)
        have "gen_loop nlp un n ss (acc @ [?m]) (qid + 1) g1 = Inr (ms, g')" by simp
        then have "gen_loop nlp un n (ss @ ss') (acc @ [?m]) (qid + 1) g1 = Inr (ms, g')"
          using Cons.prems(2) by (rule Cons.IH)
        with stop Some False q o show ?thesis by simp
      qed
    qed
  qed
qed

subsection \<open>Distinct options\<close>

lemma make_options_distinct:
  assumes mk: "make_options un w g = Inr (opts, g1)"
    and dist: "distinct un"
    and low: "\<And>x. x \<in> set un \<Longrightarrow> py_lower x = x"
  shows "distinct opts" and "set opts - {w} \<subseteq> set un - {py_lower w}"
proof -
  from mk obtain ds where opts: "mset opts = mset (ds @ [w])"
    and sub: "mset ds \<subseteq># mset (filter (\<lambda>n. n \<noteq> py_lower w) un)"
    using make_options_shape by blast
  from dist have "distinct (filter (\<lambda>n. n \<noteq> py_lower w) un)" by simp
  with sub have dds: "distinct ds" by (rule distinct_submset)
  from sub have "set_mset (mset ds) \<subseteq> set_mset (mset (filter (\<lambda>n. n \<noteq> py_lower w) un))"
    by (rule set_mset_mono)
  then have ds_set: "set ds \<subseteq> set (filter (\<lambda>n. n \<noteq> py_lower w) un)"
    by (simp only: set_mset_mset)
  have "w \<notin> set ds"
  proof
    assume "w \<in> set ds"
    with ds_set have "w \<in> set (filter (\<lambda>n. n \<noteq> py_lower w) un)" by (rule subsetD)
    then have "w \<in> set un" and "w \<noteq> py_lower w" by simp_all
    with low [of w] show False by simp
  qed
  with dds have "distinct (ds @ [w])" by simp
  moreover have "distinct opts = distinct (ds @ [w])"
    using opts by (rule mset_eq_imp_distinct_iff)
  ultimately show "distinct opts" by simp
  from opts have "set opts = set (ds @ [w])" by (rule mset_eq_setD)
  then have "set opts - {w} \<subseteq> set ds" by auto
  also note ds_set
  also have "set (filter (\<lambda>n. n \<noteq> py_lower w) un) \<subseteq> set un - {py_lower w}" by auto
  finally show "set opts - {w} \<subseteq> set un - {py_lower w}" .
qed

subsection \<open>Grading\<close>

lemma submit_loop_eq:
  "submit_loop f keys rs sc =
     (rs @ map (grade_key f) (filter is_answer_key keys),
      sc + int (length (filter is_correct (map (grade_key f) (filter is_answer_key keys)))))"
  by (induction keys arbitrary: rs sc) (simp_all add: Let_def)

lemma submit_eq:
  "submit f =
     (map (grade_key f) (filter is_answer_key (form_keys f)),
      int (length (filter is_correct (map (grade_key f) (filter is_answer_key (form_keys f))))))"
  by (simp add: submit_def submit_loop_eq)

lemma form_keys_set: "set (form_keys f) = fst ` set f"
  by (induction f rule: form_keys.induct) auto

lemma form_get_key: "k \<in> set (form_keys f) \<Longrightarrow> \<exists>v. form_get f k = Some v"
  by (simp add: form_keys_set form_get_def) (metis map_of_eq_None_iff not_Some_eq)

lemma toy_submit:
  "submit [(''q0'', ''cat''), (''answer0'', ''Cat''), (''q1'', ''dog''), (''answer1'', ''dog'')] =
     ([\<lparr>g_question = [], user_answer = Some ''cat'', correct = Some ''Cat'',
         is_correct = False\<rparr>,
       \<lparr>g_question = [], user_answer = Some ''dog'', correct = Some ''dog'',
         is_correct = True\<rparr>], 1)"
  by code_simp

lemma toy_submit_round_trip:
  "submit [(''q0'', ''cat''), (''answer0'', ''cat''), (''question0'', ''The _____ sat.'')] =
     ([\<lparr>g_question = ''The _____ sat.'', user_answer = Some ''cat'', correct = Some ''cat'',
         is_correct = True\<rparr>,
       \<lparr>g_question = [], user_answer = Some ''The _____ sat.'', correct = None,
         is_correct = False\<rparr>], 1)"
  by code_simp

subsection \<open>The blank in the question text\<close>

lemma toy_run_blank:
  "generate_mcq_questions toy_nlp ''The cat is _____.'' 2 [] =
   Inr ([\<lparr>mcq_id = 0, question = ''The _____ is _____.'', options = [''cat''],
           answer = ''cat''\<rparr>], [])"
  by code_simp

lemma toy_sentences_two:
  "sent_tokenize toy_nlp (py_join '' '' (py_split
     ''The cat sat on the mat.  The dog ran in the park.'')) =
   [''The cat sat on the mat.'', ''The dog ran in the park.'']"
  by code_simp

text \<open>Where the blank marker stands in a text that holds one.\<close>

lemma blank_after:
  assumes "us @ blank @ t = blank @ r" and "us \<noteq> []"
  shows "(\<exists>a b. r = a @ blank @ b) \<or> (\<exists>b. r = ''_'' @ b)"
proof (cases "length us < 5")
  case True
  have lb: "length blank = 5" by (simp add: blank_def)
  from assms(1) have "drop 5 (us @ blank @ t) = drop 5 (blank @ r)" by simp
  then have r: "r = drop (5 - length us) blank @ t"
    using True by (simp add: lb)
  from assms(2) True have "5 - length us \<in> {1, 2, 3, 4}" by (cases us) auto
  then have "\<exists>b. drop (5 - length us) blank = ''_'' @ b"
    by (auto simp: blank_def)
  with r show ?thesis by auto
next
  case False
  have lb: "length blank = 5" by (simp add: blank_def)
  from assms(1) have "take 5 (us @ blank @ t) = take 5 (blank @ r)" by simp
  with False have "take 5 us = blank" by (simp add: lb)
  then have us: "us = blank @ drop 5 us" by (metis append_take_drop_id)
  from assms(1) have "drop 5 (us @ blank @ t) = drop 5 (blank @ r)" by simp
  with False have "r = drop 5 us @ blank @ t" by (simp add: lb)
  then show ?thesis by blast
qed

lemma blank_before:
  assumes "blank @ t = us @ blank @ r" and "us \<noteq> []" and "p0 = p @ us"
  shows "(\<exists>a b. p0 = a @ blank @ b) \<or> (\<exists>a. p0 = a @ ''_'')"
proof (cases "length us < 5")
  case True
  have lb: "length blank = 5" by (simp add: blank_def)
  from assms(1) have "take (length us) (blank @ t) = us" by simp
  with True have us: "us = take (length us) blank" by (simp add: lb)
  from assms(2) have "0 < length us" by simp
  with True have "length us = 1 \<or> length us = 2 \<or> length us = 3 \<or> length us = 4"
    by arith
  then have "\<exists>a. take (length us) blank = a @ ''_''"
    by (auto simp: blank_def)
  with us obtain a where "us = a @ ''_''" by metis
  with assms(3) have "p0 = (p @ a) @ ''_''" by simp
  then show ?thesis by blast
next
  case False
  have lb: "length blank = 5" by (simp add: blank_def)
  from assms(1) have "take 5 (us @ blank @ r) = take 5 (blank @ t)" by simp
  with False have "take 5 us = blank" by (simp add: lb)
  then have "us = blank @ drop 5 us" by (metis append_take_drop_id)
  with assms(3) have "p0 = p @ blank @ drop 5 us" by simp
  then show ?thesis by blast
qed

lemma blank_positions:
  "(\<exists>!p. \<exists>t. p0 @ blank @ p1 = p @ blank @ t) \<longleftrightarrow>
   \<not> (\<exists>a b. p0 = a @ blank @ b) \<and> \<not> (\<exists>a. p0 = a @ ''_'') \<and>
   \<not> (\<exists>a b. p1 = a @ blank @ b) \<and> \<not> (\<exists>b. p1 = ''_'' @ b)"
proof
  assume uniq: "\<exists>!p. \<exists>t. p0 @ blank @ p1 = p @ blank @ t"
  have only: "p = p0" if "p0 @ blank @ p1 = p @ blank @ t" for p t
    using uniq that by blast
  have a: False if "p0 = a @ blank @ b" for a b
  proof -
    from that have "p0 @ blank @ p1 = a @ blank @ (b @ blank @ p1)" by simp
    then have "a = p0" by (rule only)
    with that show False by (simp add: blank_def)
  qed
  have b: False if "p0 = a @ ''_''" for a
  proof -
    from that have "p0 @ blank @ p1 = a @ blank @ (''_'' @ p1)" by (simp add: blank_def)
    then have "a = p0" by (rule only)
    with that show False by simp
  qed
  have c: False if "p1 = a @ blank @ b" for a b
  proof -
    from that have "p0 @ blank @ p1 = (p0 @ blank @ a) @ blank @ b" by simp
    then have "p0 @ blank @ a = p0" by (rule only)
    then show False by (simp add: blank_def)
  qed
  have d: False if "p1 = ''_'' @ b" for b
  proof -
    from that have "p0 @ blank @ p1 = (p0 @ ''_'') @ blank @ b" by (simp add: blank_def)
    then have "p0 @ ''_'' = p0" by (rule only)
    then show False by simp
  qed
  from a b c d show "\<not> (\<exists>a b. p0 = a @ blank @ b) \<and> \<not> (\<exists>a. p0 = a @ ''_'') \<and>
   \<not> (\<exists>a b. p1 = a @ blank @ b) \<and> \<not> (\<exists>b. p1 = ''_'' @ b)" by blast
next
  assume clean: "\<not> (\<exists>a b. p0 = a @ blank @ b) \<and> \<not> (\<exists>a. p0 = a @ ''_'') \<and>
   \<not> (\<exists>a b. p1 = a @ blank @ b) \<and> \<not> (\<exists>b. p1 = ''_'' @ b)"
  show "\<exists>!p. \<exists>t. p0 @ blank @ p1 = p @ blank @ t"
  proof (rule ex1I)
    show "\<exists>t. p0 @ blank @ p1 = p0 @ blank @ t" by blast
  next
    fix p
    assume "\<exists>t. p0 @ blank @ p1 = p @ blank @ t"
    then obtain t where eq: "p0 @ blank @ p1 = p @ blank @ t" by blast
    then obtain us where "p0 = p @ us \<and> us @ blank @ p1 = blank @ t \<or>
        p0 @ us = p \<and> blank @ p1 = us @ blank @ t"
      unfolding append_eq_append_conv2 by blast
    then show "p = p0"
    proof
      assume h: "p0 = p @ us \<and> us @ blank @ p1 = blank @ t"
      show ?thesis
      proof (cases "us = []")
        case True
        with h show ?thesis by simp
      next
        case False
        from h have e: "blank @ t = us @ blank @ p1" and pp: "p0 = p @ us" by simp_all
        from e False pp have "(\<exists>a b. p0 = a @ blank @ b) \<or> (\<exists>a. p0 = a @ ''_'')"
          by (rule blank_before)
        with clean show ?thesis by blast
      qed
    next
      assume h: "p0 @ us = p \<and> blank @ p1 = us @ blank @ t"
      show ?thesis
      proof (cases "us = []")
        case True
        with h show ?thesis by simp
      next
        case False
        from h have "us @ blank @ t = blank @ p1" by simp
        then have "(\<exists>a b. p1 = a @ blank @ b) \<or> (\<exists>b. p1 = ''_'' @ b)"
          using False by (rule blank_after)
        with clean show ?thesis by blast
      qed
    qed
  qed
qed

lemma no_underscore_clean:
  assumes "CHR ''_'' \<notin> set x"
  shows "\<not> (\<exists>a b. x = a @ blank @ b)" and "\<not> (\<exists>a. x = a @ ''_'')"
    and "\<not> (\<exists>b. x = ''_'' @ b)"
  using assms by (auto simp: blank_def)

subsection \<open>The first occurrence of the answer\<close>





section \<open>The claims\<close>

text \<open>
  C1. For every generated question record, the answer (original casing) is one of the
  options, and there are between one and four options.
\<close>

theorem answer_in_options:
  assumes "generate_mcq_questions nlp text n g = Inr (ms, g')" and "m \<in> set ms"
  shows "answer m \<in> set (options m) \<and> 1 \<le> length (options m) \<and> length (options m) \<le> 4"
proof -
  have "\<forall>m\<in>set ms. answer m \<in> set (options m) \<and> 1 \<le> length (options m)
          \<and> length (options m) \<le> 4"
    using assms(1)
  proof (rule generate_all)
    fix s w q opts g0 g1 and i :: int
    assume "make_options (noun_vocabulary nlp (py_join '' '' (py_split text))) w g0
              = Inr (opts, g1)"
    then obtain ds where ds: "mset opts = mset (ds @ [w])" and len: "length ds \<le> 3"
      using make_options_shape by blast
    from ds have "set opts = set (ds @ [w])" by (rule mset_eq_setD)
    moreover from ds have "length opts = length (ds @ [w])" by (rule mset_eq_length)
    ultimately show "answer \<lparr>mcq_id = i, question = q, options = opts, answer = w\<rparr>
          \<in> set (options \<lparr>mcq_id = i, question = q, options = opts, answer = w\<rparr>)
        \<and> 1 \<le> length (options \<lparr>mcq_id = i, question = q, options = opts, answer = w\<rparr>)
        \<and> length (options \<lparr>mcq_id = i, question = q, options = opts, answer = w\<rparr>) \<le> 4"
      using len by simp
  qed
  with assms(2) show ?thesis by blast
qed

theorem answer_in_options_witness:
  "generate_mcq_questions toy_nlp ''The cat sat on the mat.  The dog ran in the park.'' 2
     [1, 0, 2, 3, 1] =
   Inr ([\<lparr>mcq_id = 0, question = ''The _____ sat on the mat.'',
           options = [''cat'', ''mat'', ''dog'', ''park''], answer = ''cat''\<rparr>,
         \<lparr>mcq_id = 1, question = ''The _____ ran in the park.'',
           options = [''cat'', ''mat'', ''park'', ''dog''], answer = ''dog''\<rparr>], [])
   \<and> ''dog'' \<in> set [''cat'', ''mat'', ''park'', ''dog'']
   \<and> 1 \<le> length [''cat'', ''mat'', ''park'', ''dog'']
   \<and> length [''cat'', ''mat'', ''park'', ''dog''] \<le> 4"
  using toy_run_two answer_in_options [OF toy_run_two,
      of "\<lparr>mcq_id = 1, question = ''The _____ ran in the park.'',
           options = [''cat'', ''mat'', ''park'', ''dog''], answer = ''dog''\<rparr>"]
  by simp

text \<open>
  C4, as stated: for every integer count the returned sequence is no longer than the
  count. A negative count refutes it: the result is empty, and 0 is more than -1.
\<close>

theorem length_le_count_counterexample:
  "generate_mcq_questions toy_nlp ''The cat sat.'' (- 1) [4] = Inr ([], [4]) \<and>
   \<not> int (length ([] :: MCQ list)) \<le> - 1"
  using toy_run_negative by simp

text \<open>
  C4, amended: the returned sequence is no longer than the count, or empty when the
  count is negative; and once the count is reached the loop returns without looking at
  the sentences that follow.
\<close>

theorem length_le_count:
  assumes "generate_mcq_questions nlp text n g = Inr (ms, g')"
  shows "int (length ms) \<le> max 0 n \<and>
    (\<forall>un ss ss' acc qid g0 ms' g1.
       gen_loop nlp un n ss acc qid g0 = Inr (ms', g1) \<and> n \<le> int (length ms') \<longrightarrow>
       gen_loop nlp un n (ss @ ss') acc qid g0 = Inr (ms', g1))"
proof -
  let ?I = "\<lambda>acc (qid :: int). int (length acc) \<le> max 0 n"
  have "int (length ms) \<le> max 0 n"
  proof (cases "noun_vocabulary nlp (py_join '' '' (py_split text)) = []")
    case True
    with assms show ?thesis by (simp add: generate_mcq_questions_def Let_def)
  next
    case False
    with assms have "gen_loop nlp (noun_vocabulary nlp (py_join '' '' (py_split text))) n
        (sent_tokenize nlp (py_join '' '' (py_split text))) [] 0 g = Inr (ms, g')"
      by (simp add: generate_mcq_questions_def Let_def)
    then have "\<exists>qid'. ?I ms qid'"
      by (rule gen_loop_inv [where I = ?I]) simp_all
    then show ?thesis by blast
  qed
  then show ?thesis by (simp add: gen_loop_append_stop)
qed

theorem length_le_count_witness:
  "generate_mcq_questions toy_nlp ''The cat sat on the mat.  The dog ran in the park.'' 2
     [1, 0, 2, 3, 1] =
   Inr ([\<lparr>mcq_id = 0, question = ''The _____ sat on the mat.'',
           options = [''cat'', ''mat'', ''dog'', ''park''], answer = ''cat''\<rparr>,
         \<lparr>mcq_id = 1, question = ''The _____ ran in the park.'',
           options = [''cat'', ''mat'', ''park'', ''dog''], answer = ''dog''\<rparr>], [])
   \<and> int (length [0 :: int, 1]) \<le> max 0 2"
  using toy_run_two length_le_count [OF toy_run_two] by simp

text \<open>
  C7. In one call the ids of the returned records are 0, 1, ..., one less than their
  number, in the order of generation; so they are unique.
\<close>

theorem ids_contiguous:
  assumes "generate_mcq_questions nlp text n g = Inr (ms, g')"
  shows "map mcq_id ms = map int [0..<length ms] \<and> distinct (map mcq_id ms)"
proof -
  let ?I = "\<lambda>acc qid. qid = int (length acc) \<and> map mcq_id acc = map int [0..<length acc]"
  have ids: "map mcq_id ms = map int [0..<length ms]"
  proof (cases "noun_vocabulary nlp (py_join '' '' (py_split text)) = []")
    case True
    with assms show ?thesis by (simp add: generate_mcq_questions_def Let_def)
  next
    case False
    with assms have "gen_loop nlp (noun_vocabulary nlp (py_join '' '' (py_split text))) n
        (sent_tokenize nlp (py_join '' '' (py_split text))) [] 0 g = Inr (ms, g')"
      by (simp add: generate_mcq_questions_def Let_def)
    then have "\<exists>qid'. ?I ms qid'"
      by (rule gen_loop_inv [where I = ?I]) simp_all
    then show ?thesis by blast
  qed
  have "distinct (map int [0..<length ms])"
    by (simp add: distinct_map inj_on_def)
  with ids show ?thesis by simp
qed

theorem ids_contiguous_witness:
  "generate_mcq_questions toy_nlp ''The cat sat on the mat.  The dog ran in the park.'' 2
     [1, 0, 2, 3, 1] =
   Inr ([\<lparr>mcq_id = 0, question = ''The _____ sat on the mat.'',
           options = [''cat'', ''mat'', ''dog'', ''park''], answer = ''cat''\<rparr>,
         \<lparr>mcq_id = 1, question = ''The _____ ran in the park.'',
           options = [''cat'', ''mat'', ''park'', ''dog''], answer = ''dog''\<rparr>], [])
   \<and> [0, 1] = map int [0..<2] \<and> distinct [0 :: int, 1]"
proof -
  have "[0..<2] = [0, Suc 0]" by (simp add: upt_rec)
  with toy_run_two ids_contiguous [OF toy_run_two] show ?thesis by simp
qed

text \<open>
  C8. With a requested count of zero or less the generator returns the empty sequence
  for every text; no question is attempted, so the random state is untouched.
\<close>

theorem nonpositive_count_empty:
  assumes "n \<le> 0"
  shows "generate_mcq_questions nlp text n g = Inr ([], g)"
proof -
  from assms have "gen_loop nlp un n ss [] 0 g = Inr ([], g)" for un ss
    by (intro gen_loop_stop) simp
  then show ?thesis by (simp add: generate_mcq_questions_def Let_def)
qed

theorem nonpositive_count_empty_witness:
  "(- 1 :: int) \<le> 0 \<and> generate_mcq_questions toy_nlp ''The cat sat.'' (- 1) [4] = Inr ([], [4])"
proof -
  have h: "(- 1 :: int) \<le> 0" by simp
  from h nonpositive_count_empty [OF h, of toy_nlp "''The cat sat.''" "[4]"]
  show ?thesis by simp
qed

text \<open>
  C6. When the noun pool of the whole text is empty the generator returns the empty
  sequence as a result, not as an error.
\<close>

theorem empty_pool_empty:
  assumes "noun_vocabulary nlp (py_join '' '' (py_split text)) = []"
  shows "generate_mcq_questions nlp text n g = Inr ([], g)"
  using assms by (simp add: generate_mcq_questions_def Let_def)

lemma toy_pool_empty: "noun_vocabulary toy_nlp (py_join '' '' (py_split ''The is of on.'')) = []"
  by code_simp

theorem empty_pool_empty_witness:
  "noun_vocabulary toy_nlp (py_join '' '' (py_split ''The is of on.'')) = [] \<and>
   generate_mcq_questions toy_nlp ''The is of on.'' 5 [2, 7] = Inr ([], [2, 7])"
  using toy_pool_empty empty_pool_empty [OF toy_pool_empty, of 5 "[2, 7]"] by simp

text \<open>
  C5. A question is marked correct exactly when the submitted answer and the correct answer
  sent back with the form are the same string; the score is the number of result records
  marked correct.
\<close>

theorem grading_score:
  assumes "submit f = (results, score)"
  shows "score = int (length (filter is_correct results)) \<and>
    (\<forall>r\<in>set results. is_correct r = (user_answer r = correct r)) \<and>
    list_all2 (\<lambda>key r. user_answer r = form_get f key \<and>
                 correct r = form_get f (''answer'' @ drop 1 key))
      (filter is_answer_key (form_keys f)) results"
proof -
  from assms have "fst (submit f) = results" by simp
  then have r: "results = map (grade_key f) (filter is_answer_key (form_keys f))"
    unfolding submit_eq fst_conv by (rule sym)
  from assms have "snd (submit f) = score" by simp
  then have s0: "score = int (length (filter is_correct
               (map (grade_key f) (filter is_answer_key (form_keys f)))))"
    unfolding submit_eq snd_conv by (rule sym)
  from s0 have s: "score = int (length (filter is_correct results))"
    unfolding r .
  have "list_all2 (\<lambda>key r. user_answer r = form_get f key \<and>
                 correct r = form_get f (''answer'' @ drop 1 key)) ks (map (grade_key f) ks)"
    for ks
    by (induction ks) (simp_all add: grade_key_def Let_def)
  with r s show ?thesis by (auto simp add: grade_key_def Let_def)
qed

theorem grading_score_witness:
  "submit [(''q0'', ''cat''), (''answer0'', ''Cat''), (''q1'', ''dog''), (''answer1'', ''dog'')] =
     ([\<lparr>g_question = [], user_answer = Some ''cat'', correct = Some ''Cat'',
         is_correct = False\<rparr>,
       \<lparr>g_question = [], user_answer = Some ''dog'', correct = Some ''dog'',
         is_correct = True\<rparr>], 1)
   \<and> (1 :: int) = int (length (filter is_correct
       [\<lparr>g_question = [], user_answer = Some ''cat'', correct = Some ''Cat'',
         is_correct = False\<rparr>,
       \<lparr>g_question = [], user_answer = Some ''dog'', correct = Some ''dog'',
         is_correct = True\<rparr>]))"
  using toy_submit grading_score [OF toy_submit] by simp

text \<open>
  C10. There is one result record for every posted key that starts with "q" and does not
  start with "answer". A key "question" followed by an id is such a key: when the form has
  it, and has no key "answeruestion" followed by that id, it yields a record of its own,
  with no correct answer and marked incorrect.
\<close>

theorem question_field_graded:
  "fst (submit f) = map (grade_key f) (filter is_answer_key (form_keys f)) \<and>
   is_answer_key (''question'' @ i) \<and>
   (''question'' @ i \<in> set (form_keys f) \<and> form_get f (''answeruestion'' @ i) = None \<longrightarrow>
      (\<exists>r\<in>set (fst (submit f)). user_answer r = form_get f (''question'' @ i) \<and>
         correct r = None \<and> \<not> is_correct r))"
proof -
  have k: "is_answer_key (''question'' @ i)"
    by (simp add: is_answer_key_def startswith_def)
  have "\<exists>r\<in>set (fst (submit f)). user_answer r = form_get f (''question'' @ i) \<and>
         correct r = None \<and> \<not> is_correct r"
    if key: "''question'' @ i \<in> set (form_keys f)"
      and none: "form_get f (''answeruestion'' @ i) = None"
  proof -
    let ?r = "grade_key f (''question'' @ i)"
    from key k have "?r \<in> set (fst (submit f))" by (simp add: submit_eq)
    moreover have "user_answer ?r = form_get f (''question'' @ i)"
      by (simp add: grade_key_def Let_def)
    moreover from none have "correct ?r = None" by (simp add: grade_key_def Let_def)
    moreover from key none have "\<not> is_correct ?r"
      using form_get_key [OF key] by (auto simp add: grade_key_def Let_def)
    ultimately show ?thesis by blast
  qed
  with k show ?thesis by (simp add: submit_eq)
qed

theorem question_field_graded_witness:
  "fst (submit [(''q0'', ''cat''), (''answer0'', ''cat''), (''question0'', ''The _____ sat.'')]) =
     [\<lparr>g_question = ''The _____ sat.'', user_answer = Some ''cat'', correct = Some ''cat'',
        is_correct = True\<rparr>,
      \<lparr>g_question = [], user_answer = Some ''The _____ sat.'', correct = None,
        is_correct = False\<rparr>]
   \<and> is_answer_key ''question0''"
  using toy_submit_round_trip
    question_field_graded [of "[(''q0'', ''cat''), (''answer0'', ''cat''),
      (''question0'', ''The _____ sat.'')]" "''0''"]
  by simp

text \<open>
  C9. In every generated question record the options are pairwise distinct: the options
  other than the answer are entries of the noun pool, each its own lowercase form and none
  the lowercase form of the answer, so none of them is the answer as it is cased.
\<close>

theorem options_distinct:
  assumes "generate_mcq_questions nlp text n g = Inr (ms, g')" and "m \<in> set ms"
  shows "distinct (options m) \<and>
    set (options m) - {answer m}
      \<subseteq> set (noun_vocabulary nlp (py_join '' '' (py_split text))) - {py_lower (answer m)} \<and>
    (\<forall>d\<in>set (options m) - {answer m}. py_lower d = d)"
proof -
  let ?un = "noun_vocabulary nlp (py_join '' '' (py_split text))"
  let ?P = "\<lambda>m. distinct (options m) \<and>
    set (options m) - {answer m} \<subseteq> set ?un - {py_lower (answer m)}"
  have "\<forall>m\<in>set ms. ?P m"
    using assms(1)
  proof (rule generate_all)
    fix s w q opts g0 g1 and i :: int
    assume mk: "make_options ?un w g0 = Inr (opts, g1)"
    have "distinct opts"
      using mk noun_vocabulary_distinct noun_vocabulary_lower by (rule make_options_distinct(1))
    moreover have "set opts - {w} \<subseteq> set ?un - {py_lower w}"
      using mk noun_vocabulary_distinct noun_vocabulary_lower by (rule make_options_distinct(2))
    ultimately show "?P \<lparr>mcq_id = i, question = q, options = opts, answer = w\<rparr>"
      by simp
  qed
  with assms(2) have d: "distinct (options m)"
    and s: "set (options m) - {answer m} \<subseteq> set ?un - {py_lower (answer m)}"
    by blast+
  have "py_lower d = d" if "d \<in> set (options m) - {answer m}" for d
  proof -
    from that s have "d \<in> set ?un" by blast
    then show ?thesis by (rule noun_vocabulary_lower)
  qed
  with d s show ?thesis by blast
qed

theorem options_distinct_witness:
  "generate_mcq_questions toy_nlp ''The cat sat on the mat.  The dog ran in the park.'' 2
     [1, 0, 2, 3, 1] =
   Inr ([\<lparr>mcq_id = 0, question = ''The _____ sat on the mat.'',
           options = [''cat'', ''mat'', ''dog'', ''park''], answer = ''cat''\<rparr>,
         \<lparr>mcq_id = 1, question = ''The _____ ran in the park.'',
           options = [''cat'', ''mat'', ''park'', ''dog''], answer = ''dog''\<rparr>], [])
   \<and> distinct [''cat'', ''mat'', ''dog'', ''park'']"
proof -
  let ?m = "\<lparr>mcq_id = 0, question = ''The _____ sat on the mat.'',
           options = [''cat'', ''mat'', ''dog'', ''park''], answer = ''cat''\<rparr>"
  have "?m \<in> set [?m, \<lparr>mcq_id = 1, question = ''The _____ ran in the park.'',
           options = [''cat'', ''mat'', ''park'', ''dog''], answer = ''dog''\<rparr>]"
    by simp
  with toy_run_two have "distinct (options ?m)"
    by (rule options_distinct [THEN conjunct1])
  then have "distinct [''cat'', ''mat'', ''dog'', ''park'']" by (simp only: MCQ.simps)
  with toy_run_two show ?thesis by (rule conjI)
qed

text \<open>
  C2, as stated: the question text contains the blank marker exactly once for every input
  text, also when a sentence already contains the marker. The sentence "The cat is _____."
  refutes it: the marker stands at two places of its question text.
\<close>

theorem blank_once_counterexample:
  "generate_mcq_questions toy_nlp ''The cat is _____.'' 2 [] =
     Inr ([\<lparr>mcq_id = 0, question = ''The _____ is _____.'', options = [''cat''],
             answer = ''cat''\<rparr>], []) \<and>
   ''The _____ is _____.'' = ''The '' @ blank @ '' is _____.'' \<and>
   ''The _____ is _____.'' = ''The _____ is '' @ blank @ ''.'' \<and>
   \<not> (\<exists>!p. \<exists>s. ''The _____ is _____.'' = p @ blank @ s)"
proof -
  have a: "''The _____ is _____.'' = ''The '' @ blank @ '' is _____.''"
    by (simp add: blank_def)
  have b: "''The _____ is _____.'' = ''The _____ is '' @ blank @ ''.''"
    by (simp add: blank_def)
  have "\<not> (\<exists>!p. \<exists>s. ''The _____ is _____.'' = p @ blank @ s)"
  proof
    assume "\<exists>!p. \<exists>s. ''The _____ is _____.'' = p @ blank @ s"
    then have "''The '' = ''The _____ is ''" using a b by blast
    then show False by simp
  qed
  with toy_run_blank a b show ?thesis by blast
qed

text \<open>
  C2, amended: the question text of every generated record is the sentence its answer was
  selected in, with the first occurrence of the answer replaced by the blank marker. The
  marker stands at that place only, so exactly once in the question text, if and only if
  the text before the replaced word neither contains the marker nor ends with an
  underscore, and the text after it neither contains the marker nor begins with one.
\<close>

theorem blank_once:
  assumes "generate_mcq_questions nlp text n g = Inr (ms, g')" and "m \<in> set ms"
  shows "\<exists>s\<in>set (sent_tokenize nlp (py_join '' '' (py_split text))). \<exists>p0 p1.
    select_answer nlp (noun_vocabulary nlp (py_join '' '' (py_split text))) s = Some (answer m) \<and>
    s = p0 @ answer m @ p1 \<and>
    (\<forall>q0 q1. s = q0 @ answer m @ q1 \<longrightarrow> length p0 \<le> length q0) \<and>
    question m = p0 @ blank @ p1 \<and>
    ((\<exists>!p. \<exists>t. question m = p @ blank @ t) \<longleftrightarrow>
       \<not> (\<exists>a b. p0 = a @ blank @ b) \<and> \<not> (\<exists>a. p0 = a @ ''_'') \<and>
       \<not> (\<exists>a b. p1 = a @ blank @ b) \<and> \<not> (\<exists>b. p1 = ''_'' @ b))"
proof -
  let ?ss = "sent_tokenize nlp (py_join '' '' (py_split text))"
  let ?un = "noun_vocabulary nlp (py_join '' '' (py_split text))"
  let ?P = "\<lambda>m. \<exists>s\<in>set ?ss. \<exists>p0 p1.
    select_answer nlp ?un s = Some (answer m) \<and>
    s = p0 @ answer m @ p1 \<and>
    (\<forall>q0 q1. s = q0 @ answer m @ q1 \<longrightarrow> length p0 \<le> length q0) \<and>
    question m = p0 @ blank @ p1 \<and>
    ((\<exists>!p. \<exists>t. question m = p @ blank @ t) \<longleftrightarrow>
       \<not> (\<exists>a b. p0 = a @ blank @ b) \<and> \<not> (\<exists>a. p0 = a @ ''_'') \<and>
       \<not> (\<exists>a b. p1 = a @ blank @ b) \<and> \<not> (\<exists>b. p1 = ''_'' @ b))"
  have "\<forall>m\<in>set ms. ?P m"
    using assms(1)
  proof (rule generate_all)
    fix s w q opts g0 g1 and i :: int
    assume s: "s \<in> set ?ss"
      and sel: "select_answer nlp ?un s = Some w"
      and q: "blank_question s w = Inr q"
    from q obtain p0 p1 where sp: "s = p0 @ w @ p1" and qp: "q = p0 @ blank @ p1"
      and least: "\<forall>q0 q1. s = q0 @ w @ q1 \<longrightarrow> length p0 \<le> length q0"
      using blank_question_Inr by blast
    have once: "(\<exists>!p. \<exists>t. q = p @ blank @ t) \<longleftrightarrow>
       \<not> (\<exists>a b. p0 = a @ blank @ b) \<and> \<not> (\<exists>a. p0 = a @ ''_'') \<and>
       \<not> (\<exists>a b. p1 = a @ blank @ b) \<and> \<not> (\<exists>b. p1 = ''_'' @ b)"
      unfolding qp by (rule blank_positions)
    show "?P \<lparr>mcq_id = i, question = q, options = opts, answer = w\<rparr>"
      apply (rule bexI [OF _ s])
      apply (rule exI [of _ p0])
      apply (rule exI [of _ p1])
      apply (simp only: MCQ.simps)
      apply (intro conjI)
          apply (rule sel)
         apply (rule sp)
        apply (rule least)
       apply (rule qp)
      apply (rule once)
      done
  qed
  then show ?thesis using assms(2) by (rule bspec)
qed

theorem blank_once_witness:
  "generate_mcq_questions toy_nlp ''The cat sat on the mat.  The dog ran in the park.'' 2
     [1, 0, 2, 3, 1] =
   Inr ([\<lparr>mcq_id = 0, question = ''The _____ sat on the mat.'',
           options = [''cat'', ''mat'', ''dog'', ''park''], answer = ''cat''\<rparr>,
         \<lparr>mcq_id = 1, question = ''The _____ ran in the park.'',
           options = [''cat'', ''mat'', ''park'', ''dog''], answer = ''dog''\<rparr>], [])
   \<and> ''The _____ sat on the mat.'' = ''The '' @ blank @ '' sat on the mat.''
   \<and> (\<exists>!p. \<exists>t. ''The _____ sat on the mat.'' = p @ blank @ t)"
proof -
  let ?q = "''The _____ sat on the mat.''"
  let ?m = "\<lparr>mcq_id = 0, question = ?q,
           options = [''cat'', ''mat'', ''dog'', ''park''], answer = ''cat''\<rparr>"
  have mem: "?m \<in> set [?m, \<lparr>mcq_id = 1, question = ''The _____ ran in the park.'',
           options = [''cat'', ''mat'', ''park'', ''dog''], answer = ''dog''\<rparr>]"
    by simp
  let ?F = "\<lambda>s p0 p1.
    select_answer toy_nlp (noun_vocabulary toy_nlp (py_join '' '' (py_split
      ''The cat sat on the mat.  The dog ran in the park.''))) s = Some (answer ?m) \<and>
    s = p0 @ answer ?m @ p1 \<and>
    (\<forall>q0 q1. s = q0 @ answer ?m @ q1 \<longrightarrow> length p0 \<le> length q0) \<and>
    question ?m = p0 @ blank @ p1 \<and>
    ((\<exists>!p. \<exists>t. question ?m = p @ blank @ t) \<longleftrightarrow>
       \<not> (\<exists>a b. p0 = a @ blank @ b) \<and> \<not> (\<exists>a. p0 = a @ ''_'') \<and>
       \<not> (\<exists>a b. p1 = a @ blank @ b) \<and> \<not> (\<exists>b. p1 = ''_'' @ b))"
  from blank_once [OF toy_run_two mem]
  obtain s where s: "s \<in> set (sent_tokenize toy_nlp (py_join '' '' (py_split
      ''The cat sat on the mat.  The dog ran in the park.'')))"
    and ex: "\<exists>p0 p1. ?F s p0 p1" ..
  from ex obtain p0 where "\<exists>p1. ?F s p0 p1" ..
  then obtain p1 where f: "?F s p0 p1" ..
  from f have "s = p0 @ answer ?m @ p1" by (rule conjunct2 [THEN conjunct1])
  then have sp: "s = p0 @ ''cat'' @ p1" by (simp only: MCQ.simps)
  from f have "(\<exists>!p. \<exists>t. question ?m = p @ blank @ t) \<longleftrightarrow>
       \<not> (\<exists>a b. p0 = a @ blank @ b) \<and> \<not> (\<exists>a. p0 = a @ ''_'') \<and>
       \<not> (\<exists>a b. p1 = a @ blank @ b) \<and> \<not> (\<exists>b. p1 = ''_'' @ b)"
    by (rule conjunct2 [THEN conjunct2, THEN conjunct2, THEN conjunct2])
  then have once: "(\<exists>!p. \<exists>t. ?q = p @ blank @ t) \<longleftrightarrow>
       \<not> (\<exists>a b. p0 = a @ blank @ b) \<and> \<not> (\<exists>a. p0 = a @ ''_'') \<and>
       \<not> (\<exists>a b. p1 = a @ blank @ b) \<and> \<not> (\<exists>b. p1 = ''_'' @ b)"
    by (simp only: MCQ.simps)
  from s have "s = ''The cat sat on the mat.'' \<or> s = ''The dog ran in the park.''"
    unfolding toy_sentences_two by simp
  then have "CHR ''_'' \<notin> set s" by auto
  then have "CHR ''_'' \<notin> set p0" and "CHR ''_'' \<notin> set p1" unfolding sp by simp_all
  then have "\<not> (\<exists>a b. p0 = a @ blank @ b) \<and> \<not> (\<exists>a. p0 = a @ ''_'') \<and>
       \<not> (\<exists>a b. p1 = a @ blank @ b) \<and> \<not> (\<exists>b. p1 = ''_'' @ b)"
    by (intro conjI no_underscore_clean)
  with once have u: "\<exists>!p. \<exists>t. ?q = p @ blank @ t" by (rule iffD2)
  have "?q = ''The '' @ blank @ '' sat on the mat.''" by (simp add: blank_def)
  then have "?q = ''The '' @ blank @ '' sat on the mat.'' \<and> (\<exists>!p. \<exists>t. ?q = p @ blank @ t)"
    using u by (rule conjI)
  with toy_run_two show ?thesis by (rule conjI)
qed




end
